theory Spec2Isabelle
  imports Main "HOL-Library.Sublist" "HOL-Library.AList"
begin

section \<open>The recently-used cache (struct Cache)\<close>

text \<open>
  The C++ cache is a \<open>std::list\<close> of key-value pairs, front = most recently used, and an
  \<open>unordered_map\<close> from keys to iterators into that list. A list iterator is the identity
  of a list node: it stays valid while the node is spliced to another position. The model
  keeps that identity: every list element carries the iterator that denotes its node, and
  the map sends a key to such an iterator.
\<close>

type_synonym iterator = nat

type_synonym node = "iterator \<times> string \<times> string option"

record Cache =
  m_capacity :: nat
  m_cache :: "node list"
  m_cache_map :: "string \<rightharpoonup> iterator"

definition Cache_new :: "nat \<Rightarrow> Cache" where
  "Cache_new capacity = \<lparr>m_capacity = capacity, m_cache = [], m_cache_map = Map.empty\<rparr>"

text \<open>
  \<open>emplace_front\<close> allocates a node. The allocator may hand out any address that no live
  node has; the model takes the successor of the largest live one.
\<close>

definition new_iterator :: "node list \<Rightarrow> iterator" where
  "new_iterator xs = Suc (foldr max (map fst xs) 0)"

text \<open>\<open>list.splice(list.begin(), list, it)\<close>: the node \<open>it\<close> becomes the first one.\<close>

definition splice_begin :: "iterator \<Rightarrow> node list \<Rightarrow> node list" where
  "splice_begin it xs = filter (\<lambda>n. fst n = it) xs @ filter (\<lambda>n. fst n \<noteq> it) xs"

text \<open>\<open>it->second = value\<close>: assignment through the iterator.\<close>

definition assign_second :: "iterator \<Rightarrow> string option \<Rightarrow> node list \<Rightarrow> node list" where
  "assign_second it v xs = map (\<lambda>n. if fst n = it then (it, fst (snd n), v) else n) xs"

text \<open>
  \<open>move_to_front\<close> reads \<open>m_cache_map[key]\<close>. Both callers reach it only after
  \<open>find(key)\<close> succeeded, so the key is mapped; on an unmapped key \<open>operator[]\<close> would
  insert a singular iterator and the splice would be undefined, and the model leaves the
  cache as it is there.
\<close>

definition move_to_front :: "string \<Rightarrow> Cache \<Rightarrow> Cache" where
  "move_to_front key c =
     (case m_cache_map c key of
        None \<Rightarrow> c
      | Some it \<Rightarrow> c\<lparr>m_cache := splice_begin it (m_cache c)\<rparr>)"

text \<open>
  \<open>put\<close>. The eviction branch calls \<open>m_cache.back()\<close>; on an empty list (possible only with
  capacity 0, which the database never constructs) that is undefined in C++ and the model
  evicts nothing.
\<close>

definition put :: "string \<Rightarrow> string option \<Rightarrow> Cache \<Rightarrow> Cache" where
  "put key v c =
     (case m_cache_map c key of
        Some it \<Rightarrow> move_to_front key (c\<lparr>m_cache := assign_second it v (m_cache c)\<rparr>)
      | None \<Rightarrow>
          (let c1 = (if length (m_cache c) \<ge> m_capacity c
                     then (case m_cache c of
                             [] \<Rightarrow> c
                           | _ # _ \<Rightarrow>
                               c\<lparr>m_cache_map := (m_cache_map c)(fst (snd (last (m_cache c))) := None),
                                 m_cache := butlast (m_cache c)\<rparr>)
                     else c);
               it = new_iterator (m_cache c1)
           in c1\<lparr>m_cache := (it, key, v) # m_cache c1,
                 m_cache_map := (m_cache_map c1)(key \<mapsto> it)\<rparr>))"

text \<open>
  \<open>get\<close> has an out-parameter \<open>value\<close>: the model takes its content before the call and
  returns its content after it. A miss leaves it untouched. A mapped iterator that denotes
  no live node would be a dangling dereference; the model leaves \<open>value\<close> untouched there.
\<close>

definition get :: "string \<Rightarrow> string option \<Rightarrow> Cache \<Rightarrow> bool \<times> string option \<times> Cache" where
  "get key val c =
     (case m_cache_map c key of
        None \<Rightarrow> (False, val, c)
      | Some it \<Rightarrow>
          (True,
           (case map_of (m_cache c) it of None \<Rightarrow> val | Some kv \<Rightarrow> snd kv),
           move_to_front key c))"

text \<open>What \<open>print_self\<close> walks through: the pairs of the list, front to back.\<close>

definition pairs :: "Cache \<Rightarrow> (string \<times> string option) list" where
  "pairs c = map snd (m_cache c)"

definition keys :: "Cache \<Rightarrow> string list" where
  "keys c = map fst (pairs c)"

text \<open>A sequence of cache operations, applied from left to right.\<close>

datatype cache_op = Put string "string option" | Get string

fun apply_cache_op :: "cache_op \<Rightarrow> Cache \<Rightarrow> Cache" where
  "apply_cache_op (Put key v) c = put key v c"
| "apply_cache_op (Get key) c = snd (snd (get key None c))"

definition run_cache :: "cache_op list \<Rightarrow> Cache \<Rightarrow> Cache" where
  "run_cache ops c = fold apply_cache_op ops c"

text \<open>
  The invariant of the data model: the size bound, no key twice, no node twice, and the
  map holds exactly the pairs (key, iterator of the node that carries the key).
\<close>

definition cache_inv :: "Cache \<Rightarrow> bool" where
  "cache_inv c \<longleftrightarrow>
     length (m_cache c) \<le> m_capacity c \<and>
     distinct (keys c) \<and>
     distinct (map fst (m_cache c)) \<and>
     (\<forall>k it. m_cache_map c k = Some it \<longleftrightarrow> (\<exists>v. (it, k, v) \<in> set (m_cache c)))"


section \<open>The file behind the database\<close>

text \<open>
  The database keeps its pairs in the text file \<open>m_filename\<close>, one \<open>key=value\<close> per line.
  The model holds the state of that file: it cannot be opened at all, it can be opened for
  reading only, or for reading and writing; the string is its content.
\<close>

datatype file_state = NoFile | ReadOnly string | ReadWrite string

text \<open>\<open>std::ifstream fin(m_filename)\<close>: the content, or \<open>None\<close> when \<open>!fin\<close>.\<close>

fun ifstream_open :: "file_state \<Rightarrow> string option" where
  "ifstream_open NoFile = None"
| "ifstream_open (ReadOnly s) = Some s"
| "ifstream_open (ReadWrite s) = Some s"

text \<open>
  \<open>while (std::getline(fin, line))\<close>: the lines the loop sees. A line ends at a newline
  or at the end of the file; at the end of the file with nothing read, \<open>getline\<close> fails.
\<close>

fun getline_loop :: "string \<Rightarrow> string \<Rightarrow> string list" where
  "getline_loop line [] = (if line = [] then [] else [line])"
| "getline_loop line (c # cs) =
     (if c = CHR 0x0A then line # getline_loop [] cs else getline_loop (line @ [c]) cs)"

definition getlines :: "string \<Rightarrow> string list" where
  "getlines content = getline_loop [] content"

text \<open>\<open>for (line : lines) fout << line << '\n'\<close>\<close>

definition fout_lines :: "string list \<Rightarrow> string" where
  "fout_lines lines = concat (map (\<lambda>line. line @ [CHR 0x0A]) lines)"

text \<open>
  \<open>std::ofstream fout(m_filename)\<close> followed by the writing loop; when \<open>!fout\<close> the
  function returns and the file stays as it was.
\<close>

fun ofstream_write :: "string list \<Rightarrow> file_state \<Rightarrow> file_state" where
  "ofstream_write lines NoFile = NoFile"
| "ofstream_write lines (ReadOnly s) = ReadOnly s"
| "ofstream_write lines (ReadWrite s) = ReadWrite (fout_lines lines)"

text \<open>
  The reading loop of \<open>file_write_or_delete\<close>, with its two variables \<open>lines\<close> and
  \<open>is_key_found\<close>: only the first line that starts with \<open>key=\<close> is replaced or skipped.
\<close>

fun rewrite_loop ::
  "bool \<Rightarrow> string \<Rightarrow> string \<Rightarrow> string list \<Rightarrow> bool \<Rightarrow> string list \<Rightarrow> string list \<times> bool" where
  "rewrite_loop is_delete key val lines is_key_found [] = (lines, is_key_found)"
| "rewrite_loop is_delete key val lines is_key_found (line # rest) =
     (if \<not> is_key_found \<and> prefix (key @ ''='') line
      then rewrite_loop is_delete key val
             (if is_delete then lines else lines @ [key @ ''='' @ val]) True rest
      else rewrite_loop is_delete key val (lines @ [line]) is_key_found rest)"

definition file_write_or_delete :: "bool \<Rightarrow> string \<Rightarrow> string \<Rightarrow> file_state \<Rightarrow> file_state" where
  "file_write_or_delete is_delete key val f =
     (case ifstream_open f of
        None \<Rightarrow> f
      | Some content \<Rightarrow>
          (case rewrite_loop is_delete key val [] False (getlines content) of
             (lines, is_key_found) \<Rightarrow>
               if \<not> is_key_found \<and> is_delete then f
               else ofstream_write
                      (if \<not> is_key_found then lines @ [key @ ''='' @ val] else lines) f))"

definition file_write_key_value :: "string \<Rightarrow> string \<Rightarrow> file_state \<Rightarrow> file_state" where
  "file_write_key_value key val f = file_write_or_delete False key val f"

definition file_delete_key :: "string \<Rightarrow> file_state \<Rightarrow> file_state" where
  "file_delete_key key f = file_write_or_delete True key [] f"

text \<open>
  The loop of \<open>file_get_value\<close>: at the first line that starts with \<open>key=\<close> it returns
  what follows the first \<open>=\<close> of the line (\<open>line.substr(line.find('=') + 1)\<close>).
\<close>

fun file_get_value_loop :: "string \<Rightarrow> string list \<Rightarrow> string" where
  "file_get_value_loop key [] = []"
| "file_get_value_loop key (line # rest) =
     (if prefix (key @ ''='') line
      then (case dropWhile (\<lambda>c. c \<noteq> CHR ''='') line of
              [] \<Rightarrow> []
            | _ # after \<Rightarrow> after)
      else file_get_value_loop key rest)"

definition file_get_value :: "string \<Rightarrow> file_state \<Rightarrow> string" where
  "file_get_value key f =
     (case ifstream_open f of
        None \<Rightarrow> []
      | Some content \<Rightarrow> file_get_value_loop key (getlines content))"

section \<open>The database (class CachedFileDatabase)\<close>

text \<open>
  The object shared by all threads: the optional cache and the file. The three
  \<open>thread_local\<close> variables of one thread form a record of their own, so that two
  callers are two such records over one database. Each operation runs as one step: the
  model is sequential. The empty string \<open>""\<close> is the empty list \<open>[]\<close>.

  \<open>ts_transaction_data\<close> is an \<open>unordered_map\<close> and \<open>ts_transaction_deletes\<close> an
  \<open>unordered_set\<close>; the lists stand for them in the order in which \<open>commit_transaction\<close>
  iterates, an order C++ leaves open. No theorem below depends on that order: each one is
  stated for an arbitrary buffer, or is about the keys of the buffer as a set, or runs a
  transaction that buffers a single key.
\<close>

record CachedFileDatabase =
  m_local_cache :: "Cache option"
  m_file :: file_state

record thread_locals =
  ts_transaction_active :: bool
  ts_transaction_data :: "(string \<times> string) list"
  ts_transaction_deletes :: "string list"

definition thread_start :: thread_locals where
  "thread_start =
     \<lparr>ts_transaction_active = False, ts_transaction_data = [], ts_transaction_deletes = []\<rparr>"

definition CachedFileDatabase_new :: "file_state \<Rightarrow> int \<Rightarrow> CachedFileDatabase" where
  "CachedFileDatabase_new f cache_size =
     \<lparr>m_local_cache = (if cache_size > 0 then Some (Cache_new (nat cache_size)) else None),
      m_file = f\<rparr>"

definition begin_transaction :: "thread_locals \<Rightarrow> bool \<times> thread_locals" where
  "begin_transaction ts =
     (if ts_transaction_active ts then (False, ts)
      else (True, ts\<lparr>ts_transaction_active := True,
                      ts_transaction_data := [],
                      ts_transaction_deletes := []\<rparr>))"

definition commit_set :: "string \<times> string \<Rightarrow> CachedFileDatabase \<Rightarrow> CachedFileDatabase" where
  "commit_set pair db =
     (let db1 = db\<lparr>m_file := file_write_key_value (fst pair) (snd pair) (m_file db)\<rparr>
      in case m_local_cache db1 of
           None \<Rightarrow> db1
         | Some c \<Rightarrow> db1\<lparr>m_local_cache := Some (put (fst pair) (Some (snd pair)) c)\<rparr>)"

definition commit_delete :: "string \<Rightarrow> CachedFileDatabase \<Rightarrow> CachedFileDatabase" where
  "commit_delete key db =
     (let db1 = db\<lparr>m_file := file_delete_key key (m_file db)\<rparr>
      in case m_local_cache db1 of
           None \<Rightarrow> db1
         | Some c \<Rightarrow> db1\<lparr>m_local_cache := Some (put key None c)\<rparr>)"

definition commit_transaction ::
  "thread_locals \<Rightarrow> CachedFileDatabase \<Rightarrow> bool \<times> thread_locals \<times> CachedFileDatabase" where
  "commit_transaction ts db =
     (if \<not> ts_transaction_active ts then (False, ts, db)
      else
        (let db1 = fold commit_set (ts_transaction_data ts) db;
             db2 = fold commit_delete (ts_transaction_deletes ts) db1
         in (True,
             ts\<lparr>ts_transaction_data := [],
                ts_transaction_deletes := [],
                ts_transaction_active := False\<rparr>,
             db2)))"

definition abort_transaction :: "thread_locals \<Rightarrow> bool \<times> thread_locals" where
  "abort_transaction ts =
     (if \<not> ts_transaction_active ts then (False, ts)
      else (True, ts\<lparr>ts_transaction_data := [],
                      ts_transaction_deletes := [],
                      ts_transaction_active := False\<rparr>))"

text \<open>
  \<open>get_key\<close> changes no thread-local variable, so it returns the string and the database
  only. Step 2 looks the key up in the cache; step 3 reads the file and then calls
  \<open>m_local_cache->put(key, std::nullopt)\<close>.
\<close>

definition get_key :: "string \<Rightarrow> thread_locals \<Rightarrow> CachedFileDatabase \<Rightarrow> string \<times> CachedFileDatabase" where
  "get_key key ts db =
     (if \<not> ts_transaction_active ts then ([], db)
      else if key \<in> set (ts_transaction_deletes ts) then ([], db)
      else
        (case map_of (ts_transaction_data ts) key of
           Some uncommitted \<Rightarrow> (uncommitted, db)
         | None \<Rightarrow>
             (case (case m_local_cache db of
                      None \<Rightarrow> (False, None, db)
                    | Some c \<Rightarrow>
                        (case get key None c of
                           (exists, tmp_value, c') \<Rightarrow>
                             (exists, tmp_value, db\<lparr>m_local_cache := Some c'\<rparr>))) of
                (exists, tmp_value, db1) \<Rightarrow>
                  if exists then ((case tmp_value of None \<Rightarrow> [] | Some s \<Rightarrow> s), db1)
                  else
                    (let val = file_get_value key (m_file db1)
                     in (val,
                         (case m_local_cache db1 of
                            None \<Rightarrow> db1
                          | Some c \<Rightarrow> db1\<lparr>m_local_cache := Some (put key None c)\<rparr>))))))"

definition set_key ::
  "string \<Rightarrow> string \<Rightarrow> thread_locals \<Rightarrow> CachedFileDatabase
     \<Rightarrow> string \<times> thread_locals \<times> CachedFileDatabase" where
  "set_key key data ts db =
     (if \<not> ts_transaction_active ts then ([], ts, db)
      else
        (case get_key key ts db of
           (old_value, db1) \<Rightarrow>
             (old_value,
              ts\<lparr>ts_transaction_data := AList.update key data (ts_transaction_data ts),
                 ts_transaction_deletes := removeAll key (ts_transaction_deletes ts)\<rparr>,
              db1)))"

definition delete_key ::
  "string \<Rightarrow> thread_locals \<Rightarrow> CachedFileDatabase
     \<Rightarrow> string \<times> thread_locals \<times> CachedFileDatabase" where
  "delete_key key ts db =
     (if \<not> ts_transaction_active ts then ([], ts, db)
      else
        (case get_key key ts db of
           (old_value, db1) \<Rightarrow>
             (old_value,
              ts\<lparr>ts_transaction_data := AList.delete key (ts_transaction_data ts),
                 ts_transaction_deletes := List.insert key (ts_transaction_deletes ts)\<rparr>,
              db1)))"

text \<open>The interface \<open>i_db\<close> as one step function, and a caller's sequence of calls.\<close>

datatype db_op = Begin | Commit | Abort | GetKey string | SetKey string string | DeleteKey string

datatype result = Bool bool | Str string

fun call ::
  "db_op \<Rightarrow> thread_locals \<times> CachedFileDatabase \<Rightarrow> result \<times> thread_locals \<times> CachedFileDatabase" where
  "call Begin (ts, db) = (case begin_transaction ts of (r, ts') \<Rightarrow> (Bool r, ts', db))"
| "call Commit (ts, db) = (case commit_transaction ts db of (r, ts', db') \<Rightarrow> (Bool r, ts', db'))"
| "call Abort (ts, db) = (case abort_transaction ts of (r, ts') \<Rightarrow> (Bool r, ts', db))"
| "call (GetKey key) (ts, db) = (case get_key key ts db of (r, db') \<Rightarrow> (Str r, ts, db'))"
| "call (SetKey key data) (ts, db) =
     (case set_key key data ts db of (r, ts', db') \<Rightarrow> (Str r, ts', db'))"
| "call (DeleteKey key) (ts, db) =
     (case delete_key key ts db of (r, ts', db') \<Rightarrow> (Str r, ts', db'))"

fun run ::
  "db_op list \<Rightarrow> thread_locals \<times> CachedFileDatabase
     \<Rightarrow> result list \<times> thread_locals \<times> CachedFileDatabase" where
  "run [] s = ([], s)"
| "run (x # xs) s =
     (case call x s of (r, s') \<Rightarrow> (case run xs s' of (rs, s'') \<Rightarrow> (r # rs, s'')))"


section \<open>Predicates used in the statements\<close>

text \<open>
  A call that ends the transaction or stages a write or a delete of the key \<open>k\<close>.
\<close>

fun touches :: "string \<Rightarrow> db_op \<Rightarrow> bool" where
  "touches k Begin = False"
| "touches k Commit = True"
| "touches k Abort = True"
| "touches k (GetKey key) = False"
| "touches k (SetKey key data) = (key = k)"
| "touches k (DeleteKey key) = (key = k)"

text \<open>The caller holds an uncommitted write of \<open>v\<close> to \<open>k\<close>.\<close>

definition own_write :: "string \<Rightarrow> string \<Rightarrow> thread_locals \<Rightarrow> bool" where
  "own_write k v ts \<longleftrightarrow>
     ts_transaction_active ts \<and> map_of (ts_transaction_data ts) k = Some v \<and>
     k \<notin> set (ts_transaction_deletes ts)"

text \<open>No key is both in \<open>ts_transaction_data\<close> and in \<open>ts_transaction_deletes\<close>.\<close>

definition buffer_disjoint :: "thread_locals \<Rightarrow> bool" where
  "buffer_disjoint ts \<longleftrightarrow>
     set (map fst (ts_transaction_data ts)) \<inter> set (ts_transaction_deletes ts) = {}"

text \<open>A database whose cache, when it has one, is in a state that \<open>Cache\<close> can reach.\<close>

definition db_inv :: "CachedFileDatabase \<Rightarrow> bool" where
  "db_inv db \<longleftrightarrow>
     (case m_local_cache db of None \<Rightarrow> True | Some c \<Rightarrow> cache_inv c \<and> 0 < m_capacity c)"

text \<open>The lines of a file content that start with \<open>key=\<close>.\<close>

definition key_lines :: "string \<Rightarrow> string \<Rightarrow> string list" where
  "key_lines key content = filter (prefix (key @ ''='')) (getlines content)"

text \<open>
  The cache has an entry for \<open>k\<close> and the entry is a deletion: the map knows \<open>k\<close> and
  the pair of \<open>k\<close> in the list has no value.
\<close>

definition tombstoned :: "string \<Rightarrow> Cache \<Rightarrow> bool" where
  "tombstoned k c \<longleftrightarrow> m_cache_map c k \<noteq> None \<and> map_of (pairs c) k = Some None"

text \<open>The results of the calls that return \<open>bool\<close>, with the strings blanked.\<close>

definition bool_results :: "result list \<Rightarrow> bool option list" where
  "bool_results rs = map (\<lambda>r. case r of Bool b \<Rightarrow> Some b | Str s \<Rightarrow> None) rs"


section \<open>Properties of the cache\<close>

lemma foldr_max_ge: "x \<in> set xs \<Longrightarrow> x \<le> foldr max xs (0::nat)"
  by (induction xs) auto

lemma new_iterator_fresh: "new_iterator xs \<notin> fst ` set xs"
proof
  assume "new_iterator xs \<in> fst ` set xs"
  then have "new_iterator xs \<in> set (map fst xs)" by simp
  then have "new_iterator xs \<le> foldr max (map fst xs) 0" by (rule foldr_max_ge)
  then show False by (simp add: new_iterator_def)
qed

lemma set_splice_begin [simp]: "set (splice_begin it xs) = set xs"
  by (auto simp: splice_begin_def)

lemma length_splice_begin [simp]: "length (splice_begin it xs) = length xs"
  by (simp add: splice_begin_def sum_length_filter_compl)

lemma distinct_map_splice_begin:
  "distinct (map f xs) \<Longrightarrow> distinct (map f (splice_begin it xs))"
  unfolding splice_begin_def
  by (auto simp: distinct_map_filter distinct_map inj_on_def)

lemma cache_inv_new: "cache_inv (Cache_new n)"
  by (simp add: cache_inv_def Cache_new_def keys_def pairs_def)

lemma keys_alt: "keys c = map (\<lambda>n. fst (snd n)) (m_cache c)"
  by (simp add: keys_def pairs_def comp_def)

lemma cache_inv_move_to_front: "cache_inv c \<Longrightarrow> cache_inv (move_to_front k c)"
  by (auto simp: cache_inv_def move_to_front_def keys_alt
      intro: distinct_map_splice_begin split: option.splits)

lemma capacity_move_to_front [simp]: "m_capacity (move_to_front k c) = m_capacity c"
  by (simp add: move_to_front_def split: option.splits)

lemma length_assign_second [simp]: "length (assign_second it v xs) = length xs"
  by (simp add: assign_second_def)

lemma map_fst_assign_second [simp]: "map fst (assign_second it v xs) = map fst xs"
  by (simp add: assign_second_def)

lemma map_key_assign_second [simp]:
  "map (\<lambda>n. fst (snd n)) (assign_second it v xs) = map (\<lambda>n. fst (snd n)) xs"
  by (simp add: assign_second_def)

lemma in_assign_second:
  "(i, k, w) \<in> set (assign_second it v xs) \<longleftrightarrow>
     (if i = it then w = v \<and> (\<exists>w'. (i, k, w') \<in> set xs) else (i, k, w) \<in> set xs)"
  by (force simp: assign_second_def)

lemma cache_inv_assign:
  assumes "cache_inv c"
  shows "cache_inv (c\<lparr>m_cache := assign_second it v (m_cache c)\<rparr>)"
  using assms unfolding cache_inv_def keys_alt
  by (auto simp: in_assign_second)

lemma last_key_not_in_butlast:
  assumes "distinct (map f xs)" "xs \<noteq> []"
  shows "f (last xs) \<notin> f ` set (butlast xs)"
proof -
  have "xs = butlast xs @ [last xs]" using assms(2) by simp
  then have "distinct (map f (butlast xs @ [last xs]))" using assms(1) by simp
  then show ?thesis by auto
qed

text \<open>Pushing a new key in front of a cache that has room.\<close>

lemma cache_inv_push:
  assumes len: "length (m_cache c) < m_capacity c"
    and dk: "distinct (keys c)"
    and di: "distinct (map fst (m_cache c))"
    and cons: "\<forall>k it. m_cache_map c k = Some it \<longleftrightarrow> (\<exists>v. (it, k, v) \<in> set (m_cache c))"
    and new: "m_cache_map c k = None"
  shows "cache_inv (c\<lparr>m_cache := (new_iterator (m_cache c), k, v) # m_cache c,
                      m_cache_map := (m_cache_map c)(k \<mapsto> new_iterator (m_cache c))\<rparr>)"
proof -
  have fresh: "new_iterator (m_cache c) \<notin> fst ` set (m_cache c)"
    by (rule new_iterator_fresh)
  have nokey: "\<And>i w. (i, k, w) \<notin> set (m_cache c)"
    using cons new by (metis option.distinct(1))
  then have "k \<notin> set (keys c)"
    by (auto simp: keys_alt)
  moreover have "\<forall>k' it. ((m_cache_map c)(k \<mapsto> new_iterator (m_cache c))) k' = Some it \<longleftrightarrow>
      (\<exists>w. (it, k', w) \<in> set ((new_iterator (m_cache c), k, v) # m_cache c))"
    using cons nokey by auto
  ultimately show ?thesis
    using len dk di fresh unfolding cache_inv_def
    by (simp add: keys_alt)
qed

text \<open>Dropping the last node together with its map entry.\<close>

lemma cache_inv_evict:
  assumes inv: "cache_inv c" and ne: "m_cache c \<noteq> []"
  defines "c1 \<equiv> c\<lparr>m_cache_map := (m_cache_map c)(fst (snd (last (m_cache c))) := None),
                  m_cache := butlast (m_cache c)\<rparr>"
  shows "length (m_cache c1) < length (m_cache c)"
    and "distinct (keys c1)"
    and "distinct (map fst (m_cache c1))"
    and "\<forall>k it. m_cache_map c1 k = Some it \<longleftrightarrow> (\<exists>v. (it, k, v) \<in> set (m_cache c1))"
proof -
  let ?xs = "m_cache c"
  have split: "?xs = butlast ?xs @ [last ?xs]" using ne by simp
  have dk: "distinct (map (\<lambda>n. fst (snd n)) ?xs)" and di: "distinct (map fst ?xs)"
    and cons: "\<And>k it. m_cache_map c k = Some it \<longleftrightarrow> (\<exists>v. (it, k, v) \<in> set ?xs)"
    using inv by (auto simp: cache_inv_def keys_alt)
  show "length (m_cache c1) < length ?xs" using ne by (simp add: c1_def)
  show "distinct (keys c1)" using dk by (simp add: c1_def keys_alt map_butlast distinct_butlast)
  show "distinct (map fst (m_cache c1))" using di by (simp add: c1_def map_butlast distinct_butlast)
  have notin: "fst (snd (last ?xs)) \<notin> (\<lambda>n. fst (snd n)) ` set (butlast ?xs)"
    by (rule last_key_not_in_butlast [OF dk ne])
  have mem: "\<And>n. n \<in> set ?xs \<longleftrightarrow> n \<in> set (butlast ?xs) \<or> n = last ?xs"
    by (subst split) auto
  show "\<forall>k it. m_cache_map c1 k = Some it \<longleftrightarrow> (\<exists>v. (it, k, v) \<in> set (m_cache c1))"
  proof (intro allI)
    fix k it
    show "m_cache_map c1 k = Some it \<longleftrightarrow> (\<exists>v. (it, k, v) \<in> set (m_cache c1))"
    proof (cases "k = fst (snd (last ?xs))")
      case True
      have "\<And>v. (it, k, v) \<notin> set (butlast ?xs)"
      proof
        fix v assume "(it, k, v) \<in> set (butlast ?xs)"
        then have "fst (snd (it, k, v)) \<in> (\<lambda>n. fst (snd n)) ` set (butlast ?xs)"
          by (rule imageI)
        then show False using True notin by simp
      qed
      then show ?thesis using True by (simp add: c1_def)
    next
      case False
      then have "\<And>v. (it, k, v) \<noteq> last ?xs" by (metis fst_conv snd_conv)
      then have "(\<exists>v. (it, k, v) \<in> set ?xs) \<longleftrightarrow> (\<exists>v. (it, k, v) \<in> set (butlast ?xs))"
        using mem by blast
      then show ?thesis using False cons by (simp add: c1_def)
    qed
  qed
qed

lemma case_list_nonempty: "xs \<noteq> [] \<Longrightarrow> (case xs of [] \<Rightarrow> a | _ # _ \<Rightarrow> b) = b"
  by (cases xs) simp_all

lemma cache_inv_put:
  assumes inv: "cache_inv c" and cap: "0 < m_capacity c"
  shows "cache_inv (put k v c)"
proof (cases "m_cache_map c k")
  case (Some it)
  then show ?thesis
    using cache_inv_move_to_front [OF cache_inv_assign [OF inv]]
    by (simp add: put_def)
next
  case None
  have parts: "length (m_cache c) \<le> m_capacity c" "distinct (keys c)"
    "distinct (map fst (m_cache c))"
    "\<forall>k it. m_cache_map c k = Some it \<longleftrightarrow> (\<exists>v. (it, k, v) \<in> set (m_cache c))"
    using inv by (auto simp: cache_inv_def)
  show ?thesis
  proof (cases "length (m_cache c) \<ge> m_capacity c")
    case False
    then have "length (m_cache c) < m_capacity c" by simp
    from cache_inv_push [OF this parts(2,3,4) None] show ?thesis
      using None False by (simp add: put_def Let_def)
  next
    case True
    then have ne: "m_cache c \<noteq> []" using cap by auto
    define c1 where "c1 = c\<lparr>m_cache_map := (m_cache_map c)(fst (snd (last (m_cache c))) := None),
                  m_cache := butlast (m_cache c)\<rparr>"
    note ev = cache_inv_evict [OF inv ne, folded c1_def]
    have len: "length (m_cache c1) < m_capacity c1"
      using ev(1) parts(1) by (simp add: c1_def)
    have new: "m_cache_map c1 k = None" using None by (simp add: c1_def)
    from cache_inv_push [OF len ev(2,3,4) new] show ?thesis
      using None True ne by (simp add: put_def Let_def c1_def case_list_nonempty)
  qed
qed

lemma capacity_put [simp]: "m_capacity (put k v c) = m_capacity c"
  by (simp add: put_def Let_def split: option.splits list.splits)

lemma cache_inv_get: "cache_inv c \<Longrightarrow> cache_inv (snd (snd (get k val c)))"
  by (simp add: get_def cache_inv_move_to_front split: option.splits)

lemma capacity_get [simp]: "m_capacity (snd (snd (get k val c))) = m_capacity c"
  by (simp add: get_def split: option.splits)

lemma cache_inv_run:
  "cache_inv c \<Longrightarrow> 0 < m_capacity c \<Longrightarrow>
     cache_inv (run_cache ops c) \<and> m_capacity (run_cache ops c) = m_capacity c"
  unfolding run_cache_def
proof (induction ops arbitrary: c)
  case Nil
  then show ?case by simp
next
  case (Cons a ops)
  have "cache_inv (apply_cache_op a c) \<and> m_capacity (apply_cache_op a c) = m_capacity c"
    using Cons.prems by (cases a) (simp_all add: cache_inv_put cache_inv_get)
  then show ?case using Cons.IH [of "apply_cache_op a c"] Cons.prems(2) by simp
qed

text \<open>
  Claim C6. A cache constructed with a capacity above 0 and then driven by any sequence of
  \<open>put\<close> and \<open>get\<close> calls holds at most \<open>capacity\<close> entries, holds no key twice (and no
  node twice), and its map sends a key to an iterator exactly when the node of that
  iterator is in the list and carries that key. Every prefix of a sequence is a sequence,
  so this holds after every operation.
\<close>

theorem cache_capacity_and_index_invariant:
  assumes "0 < capacity"
  shows "length (m_cache (run_cache ops (Cache_new capacity))) \<le> capacity \<and>
         distinct (keys (run_cache ops (Cache_new capacity))) \<and>
         distinct (map fst (m_cache (run_cache ops (Cache_new capacity)))) \<and>
         (\<forall>k it. m_cache_map (run_cache ops (Cache_new capacity)) k = Some it \<longleftrightarrow>
                  (\<exists>v. (it, k, v) \<in> set (m_cache (run_cache ops (Cache_new capacity)))))"
proof -
  have "0 < m_capacity (Cache_new capacity)" using assms by (simp add: Cache_new_def)
  from cache_inv_run [OF cache_inv_new this, of ops]
  show ?thesis by (simp add: cache_inv_def Cache_new_def)
qed

theorem cache_capacity_and_index_invariant_witness:
  "0 < (2::nat) \<and>
   length (m_cache (run_cache [Put ''A'' (Some ''1''), Put ''B'' None, Get ''A'', Put ''C'' (Some ''3'')]
                      (Cache_new 2))) \<le> 2 \<and>
   distinct (keys (run_cache [Put ''A'' (Some ''1''), Put ''B'' None, Get ''A'', Put ''C'' (Some ''3'')]
                      (Cache_new 2)))"
  using cache_capacity_and_index_invariant
          [of 2 "[Put ''A'' (Some ''1''), Put ''B'' None, Get ''A'', Put ''C'' (Some ''3'')]"]
  by simp


lemma pairs_put_new_full:
  assumes "m_cache_map c k = None" "m_cache c \<noteq> []" "m_capacity c \<le> length (m_cache c)"
  shows "pairs (put k v c) = (k, v) # butlast (pairs c)"
  using assms by (simp add: put_def Let_def pairs_def case_list_nonempty map_butlast)

lemma pairs_put_new_room:
  assumes "m_cache_map c k = None" "length (m_cache c) < m_capacity c"
  shows "pairs (put k v c) = (k, v) # pairs c"
  using assms by (simp add: put_def Let_def pairs_def)

text \<open>
  Claim C7. With capacity 2, after \<open>put(A,1); put(B,2); put(C,3)\<close> the cache holds exactly
  C and B (A is gone from the list and from the map); after a further \<open>get(B); put(D,4)\<close>
  it holds D and B: C was evicted, not B. In general a \<open>put\<close> of a key that is not in the
  map, into a cache that is full, removes exactly the last (least recently used) pair and
  puts the new pair in front; when there is room it removes nothing.
\<close>

theorem lru_eviction_order:
  "pairs (run_cache [Put ''A'' (Some ''1''), Put ''B'' (Some ''2''), Put ''C'' (Some ''3'')]
            (Cache_new 2)) = [(''C'', Some ''3''), (''B'', Some ''2'')] \<and>
   m_cache_map (run_cache [Put ''A'' (Some ''1''), Put ''B'' (Some ''2''), Put ''C'' (Some ''3'')]
            (Cache_new 2)) ''A'' = None \<and>
   pairs (run_cache [Put ''A'' (Some ''1''), Put ''B'' (Some ''2''), Put ''C'' (Some ''3''),
                     Get ''B'', Put ''D'' (Some ''4'')]
            (Cache_new 2)) = [(''D'', Some ''4''), (''B'', Some ''2'')] \<and>
   m_cache_map (run_cache [Put ''A'' (Some ''1''), Put ''B'' (Some ''2''), Put ''C'' (Some ''3''),
                     Get ''B'', Put ''D'' (Some ''4'')]
            (Cache_new 2)) ''C'' = None \<and>
   (\<forall>c k v. m_cache_map c k = None \<and> m_cache c \<noteq> [] \<and> m_capacity c \<le> length (m_cache c)
        \<longrightarrow> pairs (put k v c) = (k, v) # butlast (pairs c)) \<and>
   (\<forall>c k v. m_cache_map c k = None \<and> length (m_cache c) < m_capacity c
        \<longrightarrow> pairs (put k v c) = (k, v) # pairs c)"
proof (intro conjI)
  show "\<forall>c k v. m_cache_map c k = None \<and> m_cache c \<noteq> [] \<and> m_capacity c \<le> length (m_cache c)
        \<longrightarrow> pairs (put k v c) = (k, v) # butlast (pairs c)"
    by (simp add: pairs_put_new_full)
  show "\<forall>c k v. m_cache_map c k = None \<and> length (m_cache c) < m_capacity c
        \<longrightarrow> pairs (put k v c) = (k, v) # pairs c"
    by (simp add: pairs_put_new_room)
qed code_simp+

theorem lru_eviction_order_witness:
  "m_cache_map (run_cache [Put ''A'' (Some ''1''), Put ''B'' (Some ''2'')] (Cache_new 2)) ''C'' = None \<and>
   m_cache (run_cache [Put ''A'' (Some ''1''), Put ''B'' (Some ''2'')] (Cache_new 2)) \<noteq> [] \<and>
   m_capacity (run_cache [Put ''A'' (Some ''1''), Put ''B'' (Some ''2'')] (Cache_new 2))
     \<le> length (m_cache (run_cache [Put ''A'' (Some ''1''), Put ''B'' (Some ''2'')] (Cache_new 2))) \<and>
   pairs (put ''C'' (Some ''3'') (run_cache [Put ''A'' (Some ''1''), Put ''B'' (Some ''2'')] (Cache_new 2)))
     = (''C'', Some ''3'') # butlast (pairs (run_cache [Put ''A'' (Some ''1''), Put ''B'' (Some ''2'')] (Cache_new 2))) \<and>
   m_cache_map (Cache_new 2) ''A'' = None \<and> length (m_cache (Cache_new 2)) < m_capacity (Cache_new 2) \<and>
   pairs (put ''A'' (Some ''1'') (Cache_new 2)) = (''A'', Some ''1'') # pairs (Cache_new 2)"
proof -
  let ?c = "run_cache [Put ''A'' (Some ''1''), Put ''B'' (Some ''2'')] (Cache_new 2)"
  have h: "m_cache_map ?c ''C'' = None \<and> m_cache ?c \<noteq> [] \<and> m_capacity ?c \<le> length (m_cache ?c)"
    by code_simp
  have h2: "m_cache_map (Cache_new 2) ''A'' = None \<and> length (m_cache (Cache_new 2)) < m_capacity (Cache_new 2)"
    by (simp add: Cache_new_def)
  from lru_eviction_order have
    g1: "\<forall>c k v. m_cache_map c k = None \<and> m_cache c \<noteq> [] \<and> m_capacity c \<le> length (m_cache c)
        \<longrightarrow> pairs (put k v c) = (k, v) # butlast (pairs c)" and
    g2: "\<forall>c k v. m_cache_map c k = None \<and> length (m_cache c) < m_capacity c
        \<longrightarrow> pairs (put k v c) = (k, v) # pairs c"
    by blast+
  from g1 h have "pairs (put ''C'' (Some ''3'') ?c) = (''C'', Some ''3'') # butlast (pairs ?c)" by blast
  moreover from g2 h2 have "pairs (put ''A'' (Some ''1'') (Cache_new 2)) = (''A'', Some ''1'') # pairs (Cache_new 2)" by blast
  ultimately show ?thesis using h h2 by blast
qed

text \<open>
  Claim C10. \<open>get\<close> of a key that is not in the cache returns false, leaves the
  out-parameter as it was (\<open>None\<close> when the caller passed a fresh optional) and leaves the
  cache unchanged, list order included. "Not in the cache" is the failed \<open>find\<close> in the
  map; for a cache that satisfies the invariant it is the same as the key not being in
  the list.
\<close>

theorem cache_get_miss_leaves_cache_unchanged:
  "(m_cache_map c key = None \<longrightarrow> get key val c = (False, val, c)) \<and>
   (cache_inv c \<and> key \<notin> set (keys c) \<longrightarrow> get key val c = (False, val, c))"
proof (intro conjI impI)
  assume "m_cache_map c key = None"
  then show "get key val c = (False, val, c)" by (simp add: get_def)
next
  assume a: "cache_inv c \<and> key \<notin> set (keys c)"
  have "m_cache_map c key = None"
  proof (cases "m_cache_map c key")
    case (Some it)
    then obtain v where "(it, key, v) \<in> set (m_cache c)" using a by (auto simp: cache_inv_def)
    then have "fst (snd (it, key, v)) \<in> set (keys c)" unfolding keys_alt set_map by (rule imageI)
    then show ?thesis using a by simp
  qed simp
  then show "get key val c = (False, val, c)" by (simp add: get_def)
qed

theorem cache_get_miss_leaves_cache_unchanged_witness:
  "m_cache_map (put ''A'' (Some ''1'') (Cache_new 2)) ''B'' = None \<and>
   get ''B'' None (put ''A'' (Some ''1'') (Cache_new 2)) = (False, None, put ''A'' (Some ''1'') (Cache_new 2))"
proof -
  have h: "m_cache_map (put ''A'' (Some ''1'') (Cache_new 2)) ''B'' = None"
    by (simp add: put_def Cache_new_def Let_def)
  with cache_get_miss_leaves_cache_unchanged [of "put ''A'' (Some ''1'') (Cache_new 2)" "''B''" None]
  show ?thesis by blast
qed


section \<open>Properties of the transaction buffer\<close>

lemma run_append:
  "run (xs @ ys) s =
     (case run xs s of (rs, s') \<Rightarrow> (case run ys s' of (rs', s'') \<Rightarrow> (rs @ rs', s'')))"
  by (induction xs arbitrary: s) (auto split: prod.splits)

lemma get_key_own_write: "own_write k v ts \<Longrightarrow> get_key k ts db = (v, db)"
  by (simp add: own_write_def get_key_def)

lemma own_write_set_key:
  "ts_transaction_active ts \<Longrightarrow> own_write k v (fst (snd (set_key k v ts db)))"
  by (simp add: set_key_def own_write_def update_conv' split: prod.splits)

lemma own_write_call:
  assumes "own_write k v ts" "\<not> touches k x"
  shows "own_write k v (fst (snd (call x (ts, db))))"
proof (cases x)
  case (SetKey key data)
  then show ?thesis using assms
    by (auto simp: own_write_def set_key_def update_conv' split: prod.splits)
next
  case (DeleteKey key)
  then show ?thesis using assms
    by (auto simp: own_write_def delete_key_def delete_conv' split: prod.splits)
qed (use assms in \<open>auto simp: own_write_def begin_transaction_def split: prod.splits\<close>)

lemma own_write_run:
  assumes "own_write k v ts" "\<forall>x \<in> set xs. \<not> touches k x"
  shows "own_write k v (fst (snd (run xs (ts, db))))"
  using assms
proof (induction xs arbitrary: ts db)
  case Nil
  then show ?case by simp
next
  case (Cons x xs)
  obtain r ts' db' where c: "call x (ts, db) = (r, ts', db')" by (cases "call x (ts, db)") auto
  have "own_write k v ts'" using own_write_call [of k v ts x db] Cons.prems c by simp
  then have "own_write k v (fst (snd (run xs (ts', db'))))" using Cons by simp
  then show ?case using c by (auto split: prod.splits)
qed

text \<open>
  Claim C3. In an active transaction, after \<open>set_key(k, v)\<close>, a \<open>get_key(k)\<close> returns
  \<open>v\<close>, whatever the cache and the file hold, also when other calls come in between, as
  long as none of them commits, aborts, or sets or deletes \<open>k\<close>.
\<close>

theorem read_your_own_writes:
  assumes "ts_transaction_active ts" and "\<forall>x \<in> set between. \<not> touches k x"
  shows "last (fst (run (SetKey k v # between @ [GetKey k]) (ts, db))) = Str v"
proof -
  obtain old ts1 db1 where s: "set_key k v ts db = (old, ts1, db1)"
    by (cases "set_key k v ts db") auto
  have w1: "own_write k v ts1" using own_write_set_key [OF assms(1), of k v db] s by simp
  obtain rs ts2 db2 where r: "run between (ts1, db1) = (rs, ts2, db2)"
    by (cases "run between (ts1, db1)") auto
  have "own_write k v ts2" using own_write_run [OF w1 assms(2), of db1] r by simp
  then have "get_key k ts2 db2 = (v, db2)" by (rule get_key_own_write)
  then show ?thesis using s r by (simp add: run_append)
qed

theorem read_your_own_writes_witness:
  "ts_transaction_active (snd (begin_transaction thread_start)) \<and>
   \<not> touches ''k'' (GetKey ''k'') \<and> \<not> touches ''k'' (SetKey ''j'' ''w'') \<and>
   \<not> touches ''k'' (DeleteKey ''j'') \<and> \<not> touches ''k'' Begin \<and>
   last (fst (run (SetKey ''k'' ''v'' # [GetKey ''k'', SetKey ''j'' ''w'', DeleteKey ''j'', Begin] @ [GetKey ''k''])
     (snd (begin_transaction thread_start), CachedFileDatabase_new (ReadWrite ''k=old'') 1))) = Str ''v''"
proof -
  have a: "ts_transaction_active (snd (begin_transaction thread_start))"
    by (simp add: begin_transaction_def thread_start_def)
  have b: "\<forall>x \<in> set [GetKey ''k'', SetKey ''j'' ''w'', DeleteKey ''j'', Begin]. \<not> touches ''k'' x"
    by simp
  from read_your_own_writes [OF a b] a show ?thesis by simp
qed

text \<open>
  Claim C8. \<open>begin_transaction\<close> in an active transaction returns false;
  \<open>commit_transaction\<close> and \<open>abort_transaction\<close> without an active transaction return
  false; \<open>get_key\<close>, \<open>set_key\<close> and \<open>delete_key\<close> without an active transaction return
  the empty string. In each case the thread-local buffer, the cache and the file are
  unchanged.
\<close>

theorem misuse_is_a_reported_no_op:
  "(ts_transaction_active ts \<longrightarrow> call Begin (ts, db) = (Bool False, ts, db)) \<and>
   (\<not> ts_transaction_active ts \<longrightarrow>
      call Commit (ts, db) = (Bool False, ts, db) \<and>
      call Abort (ts, db) = (Bool False, ts, db) \<and>
      call (GetKey k) (ts, db) = (Str [], ts, db) \<and>
      call (SetKey k v) (ts, db) = (Str [], ts, db) \<and>
      call (DeleteKey k) (ts, db) = (Str [], ts, db))"
  by (simp add: begin_transaction_def commit_transaction_def abort_transaction_def
      get_key_def set_key_def delete_key_def)

lemma buffer_disjoint_alt:
  "buffer_disjoint ts \<longleftrightarrow> fst ` set (ts_transaction_data ts) \<inter> set (ts_transaction_deletes ts) = {}"
  by (simp add: buffer_disjoint_def)

theorem misuse_is_a_reported_no_op_witness:
  "ts_transaction_active (snd (begin_transaction thread_start)) \<and>
   call Begin (snd (begin_transaction thread_start), CachedFileDatabase_new (ReadWrite ''k=v'') 1)
     = (Bool False, snd (begin_transaction thread_start),
        CachedFileDatabase_new (ReadWrite ''k=v'') 1) \<and>
   \<not> ts_transaction_active thread_start \<and>
   call Commit (thread_start, CachedFileDatabase_new (ReadWrite ''k=v'') 1)
     = (Bool False, thread_start, CachedFileDatabase_new (ReadWrite ''k=v'') 1) \<and>
   call (GetKey ''k'') (thread_start, CachedFileDatabase_new (ReadWrite ''k=v'') 1)
     = (Str [], thread_start, CachedFileDatabase_new (ReadWrite ''k=v'') 1) \<and>
   call (SetKey ''k'' ''w'') (thread_start, CachedFileDatabase_new (ReadWrite ''k=v'') 1)
     = (Str [], thread_start, CachedFileDatabase_new (ReadWrite ''k=v'') 1)"
proof -
  have a: "ts_transaction_active (snd (begin_transaction thread_start))"
    by (simp add: begin_transaction_def thread_start_def)
  have b: "\<not> ts_transaction_active thread_start"
    by (simp add: thread_start_def)
  from a b
    misuse_is_a_reported_no_op [of "snd (begin_transaction thread_start)"
       "CachedFileDatabase_new (ReadWrite ''k=v'') 1" "''k''" "''w''"]
    misuse_is_a_reported_no_op [of thread_start
       "CachedFileDatabase_new (ReadWrite ''k=v'') 1" "''k''" "''w''"]
  show ?thesis by blast
qed

lemma keys_alist_delete: "fst ` set (AList.delete k al) = fst ` set al - {k}"
  by (induction al) auto

lemma buffer_disjoint_call:
  "buffer_disjoint ts \<Longrightarrow> buffer_disjoint (fst (snd (call x (ts, db))))"
proof (cases x)
  case (SetKey key data)
  assume "buffer_disjoint ts"
  then show ?thesis using SetKey
    by (auto simp: buffer_disjoint_alt set_key_def dom_update split: prod.splits)
next
  case (DeleteKey key)
  assume "buffer_disjoint ts"
  then show ?thesis using DeleteKey
    by (auto simp: buffer_disjoint_alt delete_key_def keys_alist_delete split: prod.splits)
qed (auto simp: buffer_disjoint_def begin_transaction_def commit_transaction_def Let_def
        abort_transaction_def split: prod.splits)

lemma buffer_disjoint_run:
  "buffer_disjoint ts \<Longrightarrow> buffer_disjoint (fst (snd (run xs (ts, db))))"
proof (induction xs arbitrary: ts db)
  case Nil
  then show ?case by simp
next
  case (Cons x xs)
  obtain r ts' db' where c: "call x (ts, db) = (r, ts', db')" by (cases "call x (ts, db)") auto
  have "buffer_disjoint ts'" using buffer_disjoint_call [OF Cons.prems, of x db] c by simp
  then have "buffer_disjoint (fst (snd (run xs (ts', db'))))" by (rule Cons.IH)
  then show ?case using c by (auto split: prod.splits)
qed

text \<open>
  Claim C9. The buffer's writes and deletes are disjoint after every sequence of calls of
  a thread, and every call keeps them disjoint. In an active transaction \<open>set_key(k, v)\<close>
  leaves \<open>k\<close> written and not deleted, \<open>delete_key(k)\<close> leaves \<open>k\<close> deleted and not
  written, and commit and abort empty both; a successful begin empties both.
\<close>

theorem writes_and_deletes_stay_disjoint:
  "buffer_disjoint (fst (snd (run xs (thread_start, db)))) \<and>
   (buffer_disjoint ts \<longrightarrow> buffer_disjoint (fst (snd (call x (ts, db))))) \<and>
   (ts_transaction_active ts \<longrightarrow>
      map_of (ts_transaction_data (fst (snd (set_key k v ts db)))) k = Some v \<and>
      k \<notin> set (ts_transaction_deletes (fst (snd (set_key k v ts db)))) \<and>
      k \<notin> fst ` set (ts_transaction_data (fst (snd (delete_key k ts db)))) \<and>
      k \<in> set (ts_transaction_deletes (fst (snd (delete_key k ts db)))) \<and>
      ts_transaction_data (fst (snd (commit_transaction ts db))) = [] \<and>
      ts_transaction_deletes (fst (snd (commit_transaction ts db))) = [] \<and>
      ts_transaction_data (snd (abort_transaction ts)) = [] \<and>
      ts_transaction_deletes (snd (abort_transaction ts)) = []) \<and>
   (\<not> ts_transaction_active ts \<longrightarrow>
      ts_transaction_data (snd (begin_transaction ts)) = [] \<and>
      ts_transaction_deletes (snd (begin_transaction ts)) = [])"
proof (intro conjI impI)
  have "buffer_disjoint thread_start" by (simp add: buffer_disjoint_def thread_start_def)
  then show "buffer_disjoint (fst (snd (run xs (thread_start, db))))" by (rule buffer_disjoint_run)
next
  assume "buffer_disjoint ts"
  then show "buffer_disjoint (fst (snd (call x (ts, db))))" by (rule buffer_disjoint_call)
next
  assume a: "ts_transaction_active ts"
  show "map_of (ts_transaction_data (fst (snd (set_key k v ts db)))) k = Some v"
    using a by (simp add: set_key_def update_conv' split: prod.splits)
  show "k \<notin> set (ts_transaction_deletes (fst (snd (set_key k v ts db))))"
    using a by (simp add: set_key_def split: prod.splits)
  show "k \<notin> fst ` set (ts_transaction_data (fst (snd (delete_key k ts db))))"
    using a delete_notin_dom [of k "ts_transaction_data ts"]
    by (simp add: delete_key_def split: prod.splits)
  show "k \<in> set (ts_transaction_deletes (fst (snd (delete_key k ts db))))"
    using a by (simp add: delete_key_def split: prod.splits)
  show "ts_transaction_data (fst (snd (commit_transaction ts db))) = []"
    using a by (simp add: commit_transaction_def Let_def)
  show "ts_transaction_deletes (fst (snd (commit_transaction ts db))) = []"
    using a by (simp add: commit_transaction_def Let_def)
  show "ts_transaction_data (snd (abort_transaction ts)) = []"
    using a by (simp add: abort_transaction_def)
  show "ts_transaction_deletes (snd (abort_transaction ts)) = []"
    using a by (simp add: abort_transaction_def)
next
  assume a: "\<not> ts_transaction_active ts"
  show "ts_transaction_data (snd (begin_transaction ts)) = []"
    using a by (simp add: begin_transaction_def)
  show "ts_transaction_deletes (snd (begin_transaction ts)) = []"
    using a by (simp add: begin_transaction_def)
qed

theorem writes_and_deletes_stay_disjoint_witness:
  "buffer_disjoint (snd (begin_transaction thread_start)) \<and>
   buffer_disjoint (fst (snd (call (SetKey ''k'' ''v'')
      (snd (begin_transaction thread_start), CachedFileDatabase_new (ReadWrite ''k=u'') 1)))) \<and>
   ts_transaction_active (snd (begin_transaction thread_start)) \<and>
   map_of (ts_transaction_data (fst (snd (set_key ''k'' ''v'' (snd (begin_transaction thread_start))
      (CachedFileDatabase_new (ReadWrite ''k=u'') 1))))) ''k'' = Some ''v'' \<and>
   ''k'' \<in> set (ts_transaction_deletes (fst (snd (delete_key ''k'' (snd (begin_transaction thread_start))
      (CachedFileDatabase_new (ReadWrite ''k=u'') 1))))) \<and>
   \<not> ts_transaction_active thread_start \<and>
   ts_transaction_data (snd (begin_transaction thread_start)) = []"
proof -
  have a: "ts_transaction_active (snd (begin_transaction thread_start))"
    by (simp add: begin_transaction_def thread_start_def)
  have b: "\<not> ts_transaction_active thread_start"
    by (simp add: thread_start_def)
  have c: "buffer_disjoint (snd (begin_transaction thread_start))"
    by (simp add: buffer_disjoint_def begin_transaction_def thread_start_def)
  from a b c
    writes_and_deletes_stay_disjoint [of "[]" "CachedFileDatabase_new (ReadWrite ''k=u'') 1"
       "snd (begin_transaction thread_start)" "SetKey ''k'' ''v''" "''k''" "''v''"]
    writes_and_deletes_stay_disjoint [of "[]" "CachedFileDatabase_new (ReadWrite ''k=u'') 1"
       thread_start "SetKey ''k'' ''v''" "''k''" "''v''"]
  show ?thesis by blast
qed

section \<open>Reads through the buffer, the cache and the file\<close>

subsection \<open>Deleting a line from the file\<close>

lemma file_get_value_loop_no_line:
  "filter (prefix (k @ ''='')) ls = [] \<Longrightarrow> file_get_value_loop k ls = []"
  by (induction ls) (auto split: if_splits)

lemma rewrite_loop_found:
  "rewrite_loop d k v acc True ls = (acc @ ls, True)"
  by (induction ls arbitrary: acc) auto

lemma rewrite_loop_no_line:
  "filter (prefix (k @ ''='')) ls = [] \<Longrightarrow> rewrite_loop d k v acc False ls = (acc @ ls, False)"
  by (induction ls arbitrary: acc) (auto split: if_splits)

lemma rewrite_loop_delete_one_line:
  "filter (prefix (k @ ''='')) ls = [l] \<Longrightarrow>
     \<exists>ls'. rewrite_loop True k v acc False ls = (acc @ ls', True) \<and>
           filter (prefix (k @ ''='')) ls' = [] \<and> set ls' \<subseteq> set ls"
proof (induction ls arbitrary: acc)
  case Nil
  then show ?case by simp
next
  case (Cons x xs)
  show ?case
  proof (cases "prefix (k @ ''='') x")
    case True
    then have "filter (prefix (k @ ''='')) xs = []" using Cons.prems by simp
    then show ?thesis using True by (auto simp: rewrite_loop_found)
  next
    case False
    then have "filter (prefix (k @ ''='')) xs = [l]" using Cons.prems by simp
    from Cons.IH [OF this, of "acc @ [x]"] obtain ls' where
      "rewrite_loop True k v (acc @ [x]) False xs = ((acc @ [x]) @ ls', True)"
      "filter (prefix (k @ ''='')) ls' = []" "set ls' \<subseteq> set xs" by blast
    then show ?thesis using False by (intro exI [of _ "x # ls'"]) auto
  qed
qed

lemma getline_loop_no_newline:
  "l \<in> set (getline_loop cur s) \<Longrightarrow> CHR 0x0A \<notin> set cur \<Longrightarrow> CHR 0x0A \<notin> set l"
proof (induction s arbitrary: cur)
  case Nil
  then show ?case by (auto split: if_splits)
next
  case (Cons c cs)
  show ?case
  proof (cases "c = CHR 0x0A")
    case True
    then have "l = cur \<or> l \<in> set (getline_loop [] cs)" using Cons.prems(1) by auto
    then show ?thesis using Cons.prems(2) Cons.IH [of "[]"] by auto
  next
    case False
    then have "l \<in> set (getline_loop (cur @ [c]) cs)" using Cons.prems(1) by simp
    then show ?thesis using False Cons.prems(2) Cons.IH [of "cur @ [c]"] by auto
  qed
qed

lemma getlines_no_newline: "l \<in> set (getlines s) \<Longrightarrow> CHR 0x0A \<notin> set l"
  unfolding getlines_def by (erule getline_loop_no_newline) simp

lemma getline_loop_line:
  "CHR 0x0A \<notin> set l \<Longrightarrow>
     getline_loop cur (l @ CHR 0x0A # rest) = (cur @ l) # getline_loop [] rest"
  by (induction l arbitrary: cur) auto

lemma getlines_fout_lines:
  "\<forall>l \<in> set ls. CHR 0x0A \<notin> set l \<Longrightarrow> getlines (fout_lines ls) = ls"
proof (induction ls)
  case Nil
  then show ?case by (simp add: getlines_def fout_lines_def)
next
  case (Cons l ls)
  then have "getline_loop [] (l @ CHR 0x0A # fout_lines ls) = l # getline_loop [] (fout_lines ls)"
    using getline_loop_line [of l "[]" "fout_lines ls"] by simp
  then show ?case using Cons by (simp add: getlines_def fout_lines_def)
qed

lemma file_get_after_delete:
  assumes "length (key_lines k content) \<le> 1"
  shows "file_get_value k (file_delete_key k (ReadWrite content)) = []"
proof (cases "key_lines k content")
  case Nil
  then have n: "filter (prefix (k @ ''='')) (getlines content) = []" by (simp add: key_lines_def)
  then show ?thesis
    by (simp add: file_delete_key_def file_write_or_delete_def rewrite_loop_no_line [OF n]
        file_get_value_def file_get_value_loop_no_line)
next
  case (Cons l rest)
  then have "filter (prefix (k @ ''='')) (getlines content) = [l]"
    using assms by (simp add: key_lines_def)
  from rewrite_loop_delete_one_line [OF this, of "[]" "[]"] obtain ls' where
    r: "rewrite_loop True k [] [] False (getlines content) = (ls', True)"
    and f: "filter (prefix (k @ ''='')) ls' = []" and s: "set ls' \<subseteq> set (getlines content)"
    by auto
  have "\<forall>l \<in> set ls'. CHR 0x0A \<notin> set l" using s getlines_no_newline by blast
  then have "getlines (fout_lines ls') = ls'" by (rule getlines_fout_lines)
  then show ?thesis using r f
    by (simp add: file_delete_key_def file_write_or_delete_def file_get_value_def
        file_get_value_loop_no_line)
qed

subsection \<open>A pair that was just put is found\<close>

lemma put_mapped: "m_cache_map (put k v c) k \<noteq> None"
  by (auto simp: put_def Let_def move_to_front_def split: option.splits)

lemma filter_node:
  "distinct (map fst xs) \<Longrightarrow> (it, kv) \<in> set xs \<Longrightarrow> filter (\<lambda>n. fst n = it) xs = [(it, kv)]"
  by (induction xs) (force simp: filter_empty_conv)+

lemma put_front:
  assumes "cache_inv c"
  shows "\<exists>it rest. m_cache (put k v c) = (it, k, v) # rest"
proof (cases "m_cache_map c k")
  case None
  then show ?thesis by (simp add: put_def Let_def)
next
  case (Some it)
  then obtain w where "(it, k, w) \<in> set (m_cache c)" using assms by (auto simp: cache_inv_def)
  then have "(it, k, v) \<in> set (assign_second it v (m_cache c))"
    by (auto simp: in_assign_second)
  moreover have "distinct (map fst (assign_second it v (m_cache c)))"
    using assms by (simp add: cache_inv_def)
  ultimately have "filter (\<lambda>n. fst n = it) (assign_second it v (m_cache c)) = [(it, k, v)]"
    by (rule filter_node [rotated])
  then show ?thesis using Some by (simp add: put_def move_to_front_def splice_begin_def)
qed

lemma get_hit:
  assumes "cache_inv c" "(it, k, v) \<in> set (m_cache c)"
  shows "get k val c = (True, v, move_to_front k c)"
proof -
  have "m_cache_map c k = Some it" using assms by (auto simp: cache_inv_def)
  moreover have "map_of (m_cache c) it = Some (k, v)"
    using assms by (simp add: cache_inv_def)
  ultimately show ?thesis by (simp add: get_def)
qed

lemma tombstonedI:
  assumes "cache_inv c" "(it, k, None) \<in> set (m_cache c)"
  shows "tombstoned k c"
proof -
  have "m_cache_map c k = Some it" using assms by (auto simp: cache_inv_def)
  moreover have "distinct (map fst (pairs c))" using assms by (simp add: cache_inv_def keys_def)
  moreover have "(k, None) \<in> set (pairs c)" using assms(2) by (force simp: pairs_def)
  ultimately show ?thesis by (simp add: tombstoned_def)
qed


lemma db_inv_new: "db_inv (CachedFileDatabase_new f n)"
  by (simp add: db_inv_def CachedFileDatabase_new_def cache_inv_def Cache_new_def
      keys_def pairs_def)

lemma db_inv_get_key:
  assumes "db_inv db"
  shows "db_inv (snd (get_key k ts db))"
proof (cases "m_local_cache db")
  case None
  then show ?thesis using assms by (simp add: get_key_def db_inv_def split: option.splits)
next
  case (Some c)
  then have c: "cache_inv c" "0 < m_capacity c" using assms by (simp_all add: db_inv_def)
  obtain e t c' where g: "get k None c = (e, t, c')" by (cases "get k None c") auto
  have c': "cache_inv c'" "0 < m_capacity c'"
    using cache_inv_get [OF c(1), of k None] capacity_get [of k None c] c(2) g by simp_all
  have "cache_inv (put k None c')" "0 < m_capacity (put k None c')"
    using cache_inv_put [OF c'] c'(2) by simp_all
  then show ?thesis using assms Some g c'
    by (simp add: get_key_def db_inv_def Let_def split: option.splits)
qed

lemma file_get_key [simp]: "m_file (snd (get_key k ts db)) = m_file db"
  by (auto simp: get_key_def Let_def split: option.splits prod.splits)

lemma cache_enabled_get_key:
  "m_local_cache (snd (get_key k ts db)) = None \<longleftrightarrow> m_local_cache db = None"
  by (auto simp: get_key_def Let_def split: option.splits prod.splits)

lemma get_key_no_cache:
  "m_local_cache db = None \<Longrightarrow> ts_transaction_active ts \<Longrightarrow>
   k \<notin> set (ts_transaction_deletes ts) \<Longrightarrow> map_of (ts_transaction_data ts) k = None \<Longrightarrow>
   get_key k ts db = (file_get_value k (m_file db), db)"
  by (simp add: get_key_def)

lemma get_key_cache_hit:
  assumes "m_local_cache db = Some c" "cache_inv c" "(it, k, v) \<in> set (m_cache c)"
    "ts_transaction_active ts" "k \<notin> set (ts_transaction_deletes ts)"
    "map_of (ts_transaction_data ts) k = None"
  shows "fst (get_key k ts db) = (case v of None \<Rightarrow> [] | Some s \<Rightarrow> s)"
  using assms get_hit [OF assms(2,3), of None] by (simp add: get_key_def)

lemma run_delete_commit:
  assumes "\<not> ts_transaction_active ts"
  shows "snd (run [Begin, DeleteKey k, Commit] (ts, db)) =
           (ts\<lparr>ts_transaction_active := False, ts_transaction_data := [],
               ts_transaction_deletes := []\<rparr>,
            commit_delete k (snd (get_key k (snd (begin_transaction ts)) db)))"
  using assms
  by (simp add: begin_transaction_def delete_key_def commit_transaction_def Let_def
      case_prod_beta)

lemma run_begin_get:
  assumes "\<not> ts_transaction_active tr"
  shows "last (fst (run [Begin, GetKey k] (tr, db))) =
           Str (fst (get_key k (snd (begin_transaction tr)) db))"
  using assms by (simp add: begin_transaction_def case_prod_beta)

text \<open>
  Claim C5, as amended. A caller without an active transaction runs
  \<open>begin; delete_key(k); commit\<close> on a database whose cache, if any, is in a reachable
  state. Then a \<open>begin; get_key(k)\<close> of any caller without an active transaction (the
  committing caller is one: its transaction has ended) returns the empty string, provided
  the cache is enabled, or the file can be rewritten and holds at most one line that starts
  with \<open>k=\<close>. The cache stays enabled or disabled as it was, and an enabled cache holds
  \<open>k\<close> as a deletion entry after the commit.
\<close>

theorem committed_delete_reads_empty:
  assumes "db_inv db" and "\<not> ts_transaction_active ts" and "\<not> ts_transaction_active tr"
    and "(\<exists>c. m_local_cache db = Some c) \<or>
         (\<exists>content. m_file db = ReadWrite content \<and> length (key_lines k content) \<le> 1)"
  shows "last (fst (run [Begin, GetKey k]
                 (tr, snd (snd (run [Begin, DeleteKey k, Commit] (ts, db)))))) = Str [] \<and>
         \<not> ts_transaction_active (fst (snd (run [Begin, DeleteKey k, Commit] (ts, db)))) \<and>
         (m_local_cache (snd (snd (run [Begin, DeleteKey k, Commit] (ts, db)))) = None
            \<longleftrightarrow> m_local_cache db = None) \<and>
         (\<forall>c. m_local_cache (snd (snd (run [Begin, DeleteKey k, Commit] (ts, db)))) = Some c
            \<longrightarrow> tombstoned k c)"
proof -
  let ?ts0 = "snd (begin_transaction ts)"
  let ?tr0 = "snd (begin_transaction tr)"
  let ?dbg = "snd (get_key k ?ts0 db)"
  let ?db' = "commit_delete k ?dbg"
  have run: "snd (run [Begin, DeleteKey k, Commit] (ts, db)) =
      (ts\<lparr>ts_transaction_active := False, ts_transaction_data := [],
          ts_transaction_deletes := []\<rparr>, ?db')"
    by (rule run_delete_commit [OF assms(2)])
  have tr0: "ts_transaction_active ?tr0" "k \<notin> set (ts_transaction_deletes ?tr0)"
    "map_of (ts_transaction_data ?tr0) k = None"
    using assms(3) by (simp_all add: begin_transaction_def)
  have inv_g: "db_inv ?dbg" by (rule db_inv_get_key [OF assms(1)])
  have "m_local_cache ?db' = None \<longleftrightarrow> m_local_cache ?dbg = None"
    by (cases "m_local_cache ?dbg") (simp_all add: commit_delete_def Let_def)
  then have enabled: "m_local_cache ?db' = None \<longleftrightarrow> m_local_cache db = None"
    using cache_enabled_get_key [of k ?ts0 db] by simp
  have tomb: "\<forall>c. m_local_cache ?db' = Some c \<longrightarrow> tombstoned k c"
  proof (intro allI impI)
    fix c assume c: "m_local_cache ?db' = Some c"
    then obtain cg where cg: "m_local_cache ?dbg = Some cg" "c = put k None cg"
      by (auto simp: commit_delete_def Let_def split: option.splits)
    then have i: "cache_inv cg" "0 < m_capacity cg" using inv_g by (simp_all add: db_inv_def)
    obtain it rest where "m_cache c = (it, k, None) # rest"
      using put_front [OF i(1), of k None] cg(2) by auto
    then have "(it, k, None) \<in> set (m_cache c)" by simp
    moreover have "cache_inv c" using cache_inv_put [OF i] cg(2) by simp
    ultimately show "tombstoned k c" by (rule tombstonedI [rotated])
  qed
  have read: "fst (get_key k ?tr0 ?db') = []"
  proof (cases "m_local_cache db")
    case None
    then obtain content where f: "m_file db = ReadWrite content" "length (key_lines k content) \<le> 1"
      using assms(4) by auto
    have n: "m_local_cache ?db' = None" using None enabled by simp
    have "m_file ?db' = file_delete_key k (ReadWrite content)"
      using f(1) by (simp add: commit_delete_def Let_def split: option.splits)
    then show ?thesis
      using get_key_no_cache [OF n tr0] file_get_after_delete [OF f(2)] by simp
  next
    case (Some c0)
    then obtain c where c: "m_local_cache ?db' = Some c" using enabled by auto
    then obtain cg where cg: "m_local_cache ?dbg = Some cg" "c = put k None cg"
      by (auto simp: commit_delete_def Let_def split: option.splits)
    then have i: "cache_inv cg" "0 < m_capacity cg" using inv_g by (simp_all add: db_inv_def)
    obtain it rest where "m_cache c = (it, k, None) # rest"
      using put_front [OF i(1), of k None] cg(2) by auto
    then have m: "(it, k, None) \<in> set (m_cache c)" by simp
    have "cache_inv c" using cache_inv_put [OF i] cg(2) by simp
    from get_key_cache_hit [OF c this m tr0] show ?thesis by simp
  qed
  show ?thesis
    using run run_begin_get [OF assms(3), of k ?db'] read enabled tomb by simp
qed


theorem committed_delete_reads_empty_witness:
  "db_inv (CachedFileDatabase_new (ReadWrite (fout_lines [''k=1'', ''k=2''])) 2) \<and>
   \<not> ts_transaction_active thread_start \<and>
   m_local_cache (CachedFileDatabase_new (ReadWrite (fout_lines [''k=1'', ''k=2''])) 2)
     = Some (Cache_new 2) \<and>
   last (fst (run [Begin, GetKey ''k'']
     (thread_start, snd (snd (run [Begin, DeleteKey ''k'', Commit]
        (thread_start, CachedFileDatabase_new (ReadWrite (fout_lines [''k=1'', ''k=2''])) 2))))))
     = Str [] \<and>
   db_inv (CachedFileDatabase_new (ReadWrite (fout_lines [''j=0'', ''k=1''])) 0) \<and>
   m_file (CachedFileDatabase_new (ReadWrite (fout_lines [''j=0'', ''k=1''])) 0)
     = ReadWrite (fout_lines [''j=0'', ''k=1'']) \<and>
   length (key_lines ''k'' (fout_lines [''j=0'', ''k=1''])) \<le> 1 \<and>
   last (fst (run [Begin, GetKey ''k'']
     (thread_start, snd (snd (run [Begin, DeleteKey ''k'', Commit]
        (thread_start, CachedFileDatabase_new (ReadWrite (fout_lines [''j=0'', ''k=1''])) 0))))))
     = Str []"
proof -
  let ?A = "CachedFileDatabase_new (ReadWrite (fout_lines [''k=1'', ''k=2''])) 2"
  let ?B = "CachedFileDatabase_new (ReadWrite (fout_lines [''j=0'', ''k=1''])) 0"
  have t: "\<not> ts_transaction_active thread_start" by (simp add: thread_start_def)
  have a1: "db_inv ?A" and b1: "db_inv ?B" by (rule db_inv_new)+
  have a2: "m_local_cache ?A = Some (Cache_new 2)" by (simp add: CachedFileDatabase_new_def)
  have b2: "m_file ?B = ReadWrite (fout_lines [''j=0'', ''k=1''])"
    by (simp add: CachedFileDatabase_new_def)
  have b3: "length (key_lines ''k'' (fout_lines [''j=0'', ''k=1''])) \<le> 1"
    by (simp add: key_lines_def getlines_def fout_lines_def)
  have a4: "(\<exists>c. m_local_cache ?A = Some c) \<or>
      (\<exists>content. m_file ?A = ReadWrite content \<and> length (key_lines ''k'' content) \<le> 1)"
    using a2 by blast
  have b4: "(\<exists>c. m_local_cache ?B = Some c) \<or>
      (\<exists>content. m_file ?B = ReadWrite content \<and> length (key_lines ''k'' content) \<le> 1)"
    using b2 b3 by blast
  from committed_delete_reads_empty [OF a1 t t a4] committed_delete_reads_empty [OF b1 t t b4]
    t a1 a2 b1 b2 b3
  show ?thesis by blast
qed

text \<open>
  Claim C5 as stated fails without a cache when the file holds two lines for the key:
  \<open>file_write_or_delete\<close> drops only the first line that starts with \<open>k=\<close>, so the
  read after the committed delete finds the second one.
\<close>

theorem committed_delete_duplicate_lines_counterexample:
  "last (fst (run [Begin, GetKey ''k'']
     (thread_start, snd (snd (run [Begin, DeleteKey ''k'', Commit]
        (thread_start, CachedFileDatabase_new (ReadWrite (fout_lines [''k=1'', ''k=2''])) 0))))))
     = Str ''2''"
  by code_simp

text \<open>
  Claim C1 at a concrete input: capacity 1, the file holds \<open>k=v\<close>, the transaction is
  active and has nothing buffered. The first \<open>get_key(k)\<close> misses the cache and returns
  \<open>v\<close> from the file, but what it puts into the cache is \<open>(k, nullopt)\<close>, the deletion
  entry, not \<open>v\<close>: the cache lookup that follows finds the key with no value, and the
  next \<open>get_key(k)\<close> returns the empty string.
\<close>

theorem get_key_miss_caches_tombstone:
  "fst (get_key ''k'' (snd (begin_transaction thread_start))
          (CachedFileDatabase_new (ReadWrite (fout_lines [''k=v''])) 1)) = ''v'' \<and>
   map_option pairs (m_local_cache (snd (get_key ''k'' (snd (begin_transaction thread_start))
          (CachedFileDatabase_new (ReadWrite (fout_lines [''k=v''])) 1)))) = Some [(''k'', None)] \<and>
   map_option (\<lambda>c. (fst (get ''k'' None c), fst (snd (get ''k'' None c))))
     (m_local_cache (snd (get_key ''k'' (snd (begin_transaction thread_start))
          (CachedFileDatabase_new (ReadWrite (fout_lines [''k=v''])) 1)))) = Some (True, None) \<and>
   fst (get_key ''k'' (snd (begin_transaction thread_start))
          (snd (get_key ''k'' (snd (begin_transaction thread_start))
             (CachedFileDatabase_new (ReadWrite (fout_lines [''k=v''])) 1)))) = []"
  by code_simp

text \<open>
  Claim C4 at a concrete input: capacity 1 and an empty, writable file. After
  \<open>begin; set_key(k, v); commit\<close> the file holds \<open>k=v\<close>. A read of another key \<open>j\<close>
  evicts \<open>k\<close>; the next \<open>begin; get_key(k)\<close> misses the cache, returns \<open>v\<close> from the
  file and caches the deletion entry for \<open>k\<close>; the \<open>begin; get_key(k)\<close> after that
  returns the empty string, although nothing wrote to \<open>k\<close> and the file still holds
  \<open>k=v\<close>.
\<close>

theorem commit_then_evict_then_reread_loses_value:
  "fst (run [Begin, SetKey ''k'' ''v'', Commit,
             Begin, GetKey ''j'', Commit,
             Begin, GetKey ''k'', Commit,
             Begin, GetKey ''k'']
          (thread_start, CachedFileDatabase_new (ReadWrite []) 1))
     = [Bool True, Str [], Bool True,
        Bool True, Str [], Bool True,
        Bool True, Str ''v'', Bool True,
        Bool True, Str []] \<and>
   m_file (snd (snd (run [Begin, SetKey ''k'' ''v'', Commit,
             Begin, GetKey ''j'', Commit,
             Begin, GetKey ''k'', Commit,
             Begin, GetKey ''k'']
          (thread_start, CachedFileDatabase_new (ReadWrite []) 1))))
     = ReadWrite (fout_lines [''k=v''])"
  by code_simp

subsection \<open>What the cache cannot change\<close>

lemma file_commit_set [simp]:
  "m_file (commit_set p db) = file_write_key_value (fst p) (snd p) (m_file db)"
  by (simp add: commit_set_def Let_def split: option.splits)

lemma file_commit_delete [simp]:
  "m_file (commit_delete k db) = file_delete_key k (m_file db)"
  by (simp add: commit_delete_def Let_def split: option.splits)

lemma file_fold_commit_set:
  "m_file (fold commit_set ps db) =
     fold (\<lambda>p. file_write_key_value (fst p) (snd p)) ps (m_file db)"
  by (induction ps arbitrary: db) simp_all

lemma file_fold_commit_delete:
  "m_file (fold commit_delete ks db) = fold file_delete_key ks (m_file db)"
  by (induction ks arbitrary: db) simp_all

lemma call_file_independent_of_cache:
  assumes "m_file db1 = m_file db2"
  shows "fst (snd (call x (ts, db1))) = fst (snd (call x (ts, db2))) \<and>
         m_file (snd (snd (call x (ts, db1)))) = m_file (snd (snd (call x (ts, db2)))) \<and>
         bool_results [fst (call x (ts, db1))] = bool_results [fst (call x (ts, db2))]"
  using assms
  by (cases x)
    (simp_all add: bool_results_def commit_transaction_def Let_def set_key_def delete_key_def
      file_fold_commit_set file_fold_commit_delete case_prod_beta)

lemma run_file_independent_of_cache:
  assumes "m_file db1 = m_file db2"
  shows "fst (snd (run xs (ts, db1))) = fst (snd (run xs (ts, db2))) \<and>
         m_file (snd (snd (run xs (ts, db1)))) = m_file (snd (snd (run xs (ts, db2)))) \<and>
         bool_results (fst (run xs (ts, db1))) = bool_results (fst (run xs (ts, db2)))"
  using assms
proof (induction xs arbitrary: ts db1 db2)
  case Nil
  then show ?case by (simp add: bool_results_def)
next
  case (Cons x xs)
  obtain r1 ts1 d1 where c1: "call x (ts, db1) = (r1, ts1, d1)" by (cases "call x (ts, db1)") auto
  obtain r2 ts2 d2 where c2: "call x (ts, db2) = (r2, ts2, d2)" by (cases "call x (ts, db2)") auto
  from call_file_independent_of_cache [OF Cons.prems, of x ts] c1 c2
  have e: "ts1 = ts2" "m_file d1 = m_file d2" "bool_results [r1] = bool_results [r2]" by simp_all
  from Cons.IH [OF e(2), of ts1] e c1 c2 show ?case
    by (simp add: bool_results_def case_prod_beta)
qed

text \<open>
  Claim C2. With the file holding \<open>k=v\<close>, the calls \<open>begin; get_key(k); get_key(k)\<close>
  return \<open>true, v, v\<close> without a cache and \<open>true, v, ""\<close> with a cache of capacity 1:
  the second read hits the deletion entry that the first read cached. What does not depend
  on the cache, for every sequence of calls, every starting buffer, every file and every
  cache size: the final file, the final thread-local buffer, and the results of begin,
  commit and abort.
\<close>

theorem cache_changes_what_a_read_returns:
  "fst (run [Begin, GetKey ''k'', GetKey ''k'']
          (thread_start, CachedFileDatabase_new (ReadWrite (fout_lines [''k=v''])) 0))
     = [Bool True, Str ''v'', Str ''v''] \<and>
   fst (run [Begin, GetKey ''k'', GetKey ''k'']
          (thread_start, CachedFileDatabase_new (ReadWrite (fout_lines [''k=v''])) 1))
     = [Bool True, Str ''v'', Str []] \<and>
   m_file (snd (snd (run xs (ts, CachedFileDatabase_new f n))))
     = m_file (snd (snd (run xs (ts, CachedFileDatabase_new f 0)))) \<and>
   fst (snd (run xs (ts, CachedFileDatabase_new f n)))
     = fst (snd (run xs (ts, CachedFileDatabase_new f 0))) \<and>
   bool_results (fst (run xs (ts, CachedFileDatabase_new f n)))
     = bool_results (fst (run xs (ts, CachedFileDatabase_new f 0)))"
proof -
  have "m_file (CachedFileDatabase_new f n) = m_file (CachedFileDatabase_new f 0)"
    by (simp add: CachedFileDatabase_new_def)
  from run_file_independent_of_cache [OF this, of xs ts]
  have g: "m_file (snd (snd (run xs (ts, CachedFileDatabase_new f n))))
     = m_file (snd (snd (run xs (ts, CachedFileDatabase_new f 0))))"
   "fst (snd (run xs (ts, CachedFileDatabase_new f n)))
     = fst (snd (run xs (ts, CachedFileDatabase_new f 0)))"
   "bool_results (fst (run xs (ts, CachedFileDatabase_new f n)))
     = bool_results (fst (run xs (ts, CachedFileDatabase_new f 0)))"
    by simp_all
  have a: "fst (run [Begin, GetKey ''k'', GetKey ''k'']
          (thread_start, CachedFileDatabase_new (ReadWrite (fout_lines [''k=v''])) 0))
     = [Bool True, Str ''v'', Str ''v'']" by code_simp
  have b: "fst (run [Begin, GetKey ''k'', GetKey ''k'']
          (thread_start, CachedFileDatabase_new (ReadWrite (fout_lines [''k=v''])) 1))
     = [Bool True, Str ''v'', Str []]" by code_simp
  show ?thesis using a b g by simp
qed

subsection \<open>Reachable databases, misses and committed writes\<close>

text \<open>The constructor establishes \<open>db_inv\<close> (lemma \<open>db_inv_new\<close>) and every call keeps it.\<close>

lemma db_inv_commit_set: "db_inv db \<Longrightarrow> db_inv (commit_set p db)"
  by (auto simp: db_inv_def commit_set_def Let_def cache_inv_put split: option.splits)

lemma db_inv_commit_delete: "db_inv db \<Longrightarrow> db_inv (commit_delete k db)"
  by (auto simp: db_inv_def commit_delete_def Let_def cache_inv_put split: option.splits)

lemma db_inv_fold_commit_set: "db_inv db \<Longrightarrow> db_inv (fold commit_set ps db)"
  by (induction ps arbitrary: db) (simp_all add: db_inv_commit_set)

lemma db_inv_fold_commit_delete: "db_inv db \<Longrightarrow> db_inv (fold commit_delete ks db)"
  by (induction ks arbitrary: db) (simp_all add: db_inv_commit_delete)

lemma db_inv_call: "db_inv db \<Longrightarrow> db_inv (snd (snd (call x (ts, db))))"
  by (cases x)
    (simp_all add: commit_transaction_def Let_def set_key_def delete_key_def case_prod_beta
      db_inv_get_key db_inv_fold_commit_set db_inv_fold_commit_delete)

lemma db_inv_run: "db_inv db \<Longrightarrow> db_inv (snd (snd (run xs (ts, db))))"
proof (induction xs arbitrary: ts db)
  case Nil
  then show ?case by simp
next
  case (Cons x xs)
  obtain r ts' db' where c: "call x (ts, db) = (r, ts', db')" by (cases "call x (ts, db)") auto
  then have "db_inv db'" using db_inv_call [OF Cons.prems, of x ts] by simp
  then have "db_inv (snd (snd (run xs (ts', db'))))" by (rule Cons.IH)
  then show ?case using c by (simp add: case_prod_beta)
qed

text \<open>
  What a cache miss leaves behind, for every database with a cache: the read returns what
  the file holds, and the same read repeated returns the empty string.
\<close>

lemma get_key_miss:
  assumes "m_local_cache db = Some c" "m_cache_map c k = None"
    "ts_transaction_active ts" "k \<notin> set (ts_transaction_deletes ts)"
    "map_of (ts_transaction_data ts) k = None"
  shows "get_key k ts db =
           (file_get_value k (m_file db), db\<lparr>m_local_cache := Some (put k None c)\<rparr>)"
  using assms by (simp add: get_key_def get_def)

lemma get_key_miss_then_reread:
  assumes "db_inv db" "m_local_cache db = Some c" "m_cache_map c k = None"
    "ts_transaction_active ts" "k \<notin> set (ts_transaction_deletes ts)"
    "map_of (ts_transaction_data ts) k = None"
  shows "fst (get_key k ts db) = file_get_value k (m_file db)"
    and "fst (get_key k ts (snd (get_key k ts db))) = []"
proof -
  have g: "get_key k ts db =
      (file_get_value k (m_file db), db\<lparr>m_local_cache := Some (put k None c)\<rparr>)"
    by (rule get_key_miss [OF assms(2-6)])
  then show "fst (get_key k ts db) = file_get_value k (m_file db)" by simp
  have i: "cache_inv c" "0 < m_capacity c" using assms(1,2) by (simp_all add: db_inv_def)
  obtain it rest where "m_cache (put k None c) = (it, k, None) # rest"
    using put_front [OF i(1), of k None] by auto
  then have m: "(it, k, None) \<in> set (m_cache (put k None c))" by simp
  have c: "m_local_cache (db\<lparr>m_local_cache := Some (put k None c)\<rparr>) = Some (put k None c)"
    by simp
  from get_key_cache_hit [OF c cache_inv_put [OF i] m assms(4-6)] g
  show "fst (get_key k ts (snd (get_key k ts db))) = []" by simp
qed

text \<open>
  With a cache, the read that directly follows a committed write is answered by the
  cache and returns the written value.
\<close>

lemma run_set_commit:
  assumes "\<not> ts_transaction_active ts"
  shows "snd (run [Begin, SetKey k v, Commit] (ts, db)) =
           (ts\<lparr>ts_transaction_active := False, ts_transaction_data := [],
               ts_transaction_deletes := []\<rparr>,
            commit_set (k, v) (snd (get_key k (snd (begin_transaction ts)) db)))"
  using assms
  by (simp add: begin_transaction_def set_key_def commit_transaction_def Let_def
      case_prod_beta)

lemma committed_write_read_through_cache:
  assumes "db_inv db" and "\<not> ts_transaction_active ts" and "\<not> ts_transaction_active tr"
    and "m_local_cache db = Some c0"
  shows "last (fst (run [Begin, GetKey k]
                 (tr, snd (snd (run [Begin, SetKey k v, Commit] (ts, db)))))) = Str v"
proof -
  let ?ts0 = "snd (begin_transaction ts)"
  let ?tr0 = "snd (begin_transaction tr)"
  let ?dbg = "snd (get_key k ?ts0 db)"
  let ?db' = "commit_set (k, v) ?dbg"
  have tr0: "ts_transaction_active ?tr0" "k \<notin> set (ts_transaction_deletes ?tr0)"
    "map_of (ts_transaction_data ?tr0) k = None"
    using assms(3) by (simp_all add: begin_transaction_def)
  have inv_g: "db_inv ?dbg" by (rule db_inv_get_key [OF assms(1)])
  obtain cg where cg: "m_local_cache ?dbg = Some cg"
    using cache_enabled_get_key [of k ?ts0 db] assms(4) by (cases "m_local_cache ?dbg") auto
  then have i: "cache_inv cg" "0 < m_capacity cg" using inv_g by (simp_all add: db_inv_def)
  have c: "m_local_cache ?db' = Some (put k (Some v) cg)"
    using cg by (simp add: commit_set_def Let_def)
  obtain it rest where "m_cache (put k (Some v) cg) = (it, k, Some v) # rest"
    using put_front [OF i(1), of k "Some v"] by auto
  then have m: "(it, k, Some v) \<in> set (m_cache (put k (Some v) cg))" by simp
  from get_key_cache_hit [OF c cache_inv_put [OF i] m tr0]
  have "fst (get_key k ?tr0 ?db') = v" by simp
  then show ?thesis
    using run_set_commit [OF assms(2), of k v db] run_begin_get [OF assms(3), of k ?db']
    by simp
qed

end
